theory Spec2Isabelle
  imports Main "HOL-Library.Sublist" "HOL-Library.Word"
begin

section \<open>Inventory model\<close>

text \<open>
  \<open>dcr.go\<close>, lines 19 to 27: a server has a name, an environment and a sequence of tags.
\<close>

record Server =
  Name :: string
  Environment :: string
  Tags :: "string list"

text \<open>
  \<open>Servers\<close> is a Go slice of \<open>Server\<close>, and both filters build their result with
  \<open>servers[:0]\<close> and \<open>append\<close>, that is, inside the array their argument points to. The store
  is therefore explicit: a list of backing arrays, addressed by position. A slice header
  names its array and its length. Every slice of the program starts at the first element
  of its array (the decoder's result, \<open>s[:0]\<close>, the results of \<open>append\<close>), so the header
  carries no offset and the capacity of a slice is the length of its array.
\<close>

type_synonym store = "Server list list"

record Servers =
  arr :: nat
  len :: nat

definition cap :: "store \<Rightarrow> Servers \<Rightarrow> nat" where
  "cap st s = length (st ! arr s)"

definition elems :: "store \<Rightarrow> Servers \<Rightarrow> Server list" where
  "elems st s = take (len s) (st ! arr s)"

text \<open>A slice header is well formed in a store: its array exists and holds its length.\<close>

definition valid :: "store \<Rightarrow> Servers \<Rightarrow> bool" where
  "valid st s \<longleftrightarrow> arr s < length st \<and> len s \<le> cap st s"

text \<open>
  Go's \<open>append(s, x)\<close>: below capacity the element is written into the array of \<open>s\<close>, at
  index \<open>len(s)\<close>; at capacity a new array is allocated, the elements are copied and \<open>x\<close> is
  added (Go may give the new array spare room; the model gives it none).
\<close>

definition append_s :: "store \<Rightarrow> Servers \<Rightarrow> Server \<Rightarrow> store \<times> Servers" where
  "append_s st s x =
     (if len s < cap st s
      then (st[arr s := (st ! arr s)[len s := x]], s\<lparr>len := len s + 1\<rparr>)
      else (st @ [elems st s @ [x]], \<lparr>arr = length st, len = len s + 1\<rparr>))"

section \<open>Selection engine\<close>

text \<open>\<open>strings.HasPrefix\<close> and \<open>strings.TrimPrefix\<close> of the Go library.\<close>

definition HasPrefix :: "string \<Rightarrow> string \<Rightarrow> bool" where
  "HasPrefix s p \<longleftrightarrow> length s \<ge> length p \<and> take (length p) s = p"

definition TrimPrefix :: "string \<Rightarrow> string \<Rightarrow> string" where
  "TrimPrefix s p = (if HasPrefix s p then drop (length p) s else s)"

text \<open>
  \<open>filterByEnvironment\<close>, lines 40 to 48. The \<open>range\<close> loop runs over the indices of the slice
  it was given and reads element \<open>i\<close> from the array at iteration \<open>i\<close>, by which time earlier
  iterations may have written to the same array.
\<close>

definition filterByEnvironment :: "store \<Rightarrow> Servers \<Rightarrow> string \<Rightarrow> store \<times> Servers" where
  "filterByEnvironment st servers environment =
     fold (\<lambda>i (st, filtered).
             let server = st ! arr servers ! i in
             if Environment server = environment then append_s st filtered server
             else (st, filtered))
       [0..<len servers] (st, servers\<lparr>len := 0\<rparr>)"

text \<open>\<open>contains\<close>, lines 50 to 58.\<close>

fun contains :: "string list \<Rightarrow> string \<Rightarrow> bool" where
  "contains [] expectedTag = False"
| "contains (tag # tags) expectedTag = (if tag = expectedTag then True else contains tags expectedTag)"

text \<open>\<open>filterByTag\<close>, lines 60 to 74.\<close>

definition filterByTag :: "store \<Rightarrow> Servers \<Rightarrow> string \<Rightarrow> store \<times> Servers" where
  "filterByTag st servers tag =
     fold (\<lambda>i (st, filtered).
             let server = st ! arr servers ! i in
             if HasPrefix tag ''!''
             then (if \<not> contains (Tags server) (TrimPrefix tag ''!'')
                   then append_s st filtered server else (st, filtered))
             else (if contains (Tags server) tag
                   then append_s st filtered server else (st, filtered)))
       [0..<len servers] (st, servers\<lparr>len := 0\<rparr>)"

text \<open>
  \<open>filterServers\<close>, lines 112 to 122. The tag expressions are a sequence of strings; a nil
  slice and an empty one both have length 0, so the test \<open>tags != nil && len(tags) != 0\<close>
  is the test that the sequence is not empty.
\<close>

definition filterServers :: "store \<Rightarrow> Servers \<Rightarrow> string \<Rightarrow> string list \<Rightarrow> store \<times> Servers" where
  "filterServers st servers environment tags =
     (let (st, servers) = (if environment \<noteq> '''' then filterByEnvironment st servers environment
                           else (st, servers))
      in if tags \<noteq> []
         then fold (\<lambda>tag (st, servers). filterByTag st servers tag) tags (st, servers)
         else (st, servers))"

text \<open>
  The specification's \<open>select\<close>: the servers that the slice returned by \<open>filterServers\<close>
  holds, read in the store it leaves.
\<close>

definition select :: "store \<Rightarrow> Servers \<Rightarrow> string \<Rightarrow> string list \<Rightarrow> Server list" where
  "select st servers environment tags =
     (case filterServers st servers environment tags of (st', servers') \<Rightarrow> elems st' servers')"

section \<open>The world outside the program\<close>

text \<open>
  The external collaborators are parameters of the model, gathered in one record: the
  file system (\<open>ioutil.ReadFile\<close>, which gives an error message or the file's content), the
  JSON codec (\<open>json.Unmarshal\<close>, whose error the source ignores, and \<open>json.MarshalIndent\<close>),
  the terminal colour library (\<open>rgbterm.String\<close>), the date and time that the standard
  logger writes before a message, and the operating system's answer to the \<open>k\<close>-th
  subprocess of the run, given its argument vector.

  A subprocess either fails to start, or is waited for: \<open>cmd.Wait\<close> then returns no error or
  an error, and the two buffers hold what the helper wrote. An error of \<open>cmd.Wait\<close> is an
  \<open>*exec.ExitError\<close> or something else; the \<open>Sys()\<close> of an \<open>*exec.ExitError\<close> is a
  \<open>syscall.WaitStatus\<close>, given here by the value of its \<open>ExitStatus()\<close>, or something else.
\<close>

datatype sys = WaitStatus int | OtherSys

datatype wait_error = ExitError sys | OtherError

datatype helper_run =
    StartFailed string
  | Waited "wait_error option" string string

record ext =
  ReadFile :: "string \<Rightarrow> string + string"
  Unmarshal :: "string \<Rightarrow> Server list"
  MarshalIndent :: "Server list \<Rightarrow> string + string"
  rgbterm_String :: "string \<Rightarrow> 8 word \<Rightarrow> 8 word \<Rightarrow> 8 word \<Rightarrow> 8 word \<Rightarrow> 8 word \<Rightarrow> 8 word \<Rightarrow> string"
  log_prefix :: string
  launch :: "nat \<Rightarrow> string list \<Rightarrow> helper_run"

text \<open>
  What a run of the program does to the outside: the text written to the two streams, the
  servers for which \<open>execCommand\<close> was called, in order, and the exit status once the process
  has ended.
\<close>

record process =
  stdout :: string
  stderr :: string
  dispatched :: "Server list"
  exit_status :: "int option"

definition running :: process where
  "running = \<lparr>stdout = [], stderr = [], dispatched = [], exit_status = None\<rparr>"

subsection \<open>Library functions on strings\<close>

text \<open>
  \<open>strings.Split\<close> with a separator of one byte, \<open>strings.Trim\<close> with a cutset of bytes,
  the width padding of the \<open>fmt\<close> verb \<open>%Ns\<close> (which counts runes: in well-formed UTF-8, the
  bytes that are not continuation bytes) and \<open>strconv.Itoa\<close>.
\<close>

fun Split :: "string \<Rightarrow> char \<Rightarrow> string list" where
  "Split [] sep = [[]]"
| "Split (c # s) sep =
     (if c = sep then [] # Split s sep
      else (case Split s sep of [] \<Rightarrow> [[c]] | w # ws \<Rightarrow> (c # w) # ws))"

definition Trim :: "string \<Rightarrow> string \<Rightarrow> string" where
  "Trim s cutset =
     rev (dropWhile (\<lambda>c. c \<in> set cutset) (rev (dropWhile (\<lambda>c. c \<in> set cutset) s)))"

definition RuneCount :: "string \<Rightarrow> nat" where
  "RuneCount s = length (filter (\<lambda>c. \<not> (128 \<le> (of_char c :: nat) \<and> (of_char c :: nat) < 192)) s)"

definition pad :: "nat \<Rightarrow> string \<Rightarrow> string" where
  "pad width s = replicate (width - RuneCount s) CHR '' '' @ s"

fun digits :: "nat \<Rightarrow> string" where
  "digits n =
     (if n < 10 then [char_of (48 + n)] else digits (n div 10) @ [char_of (48 + n mod 10)])"

definition Itoa :: "int \<Rightarrow> string" where
  "Itoa i = (if i < 0 then CHR ''-'' # digits (nat (- i)) else digits (nat i))"

section \<open>Loading and presenting a selection (\<open>list\<close> mode)\<close>

text \<open>
  \<open>getServers\<close>, lines 29 to 38: an unreadable file prints the error and ends the process
  with status 1; otherwise the decoded servers sit in a fresh array.
\<close>

definition getServers :: "ext \<Rightarrow> string \<Rightarrow> process + store \<times> Servers" where
  "getServers x configFile =
     (case ReadFile x configFile of
        Inl err \<Rightarrow> Inl (running\<lparr>stdout := err @ ''\<newline>'', exit_status := Some 1\<rparr>)
      | Inr raw \<Rightarrow>
          (let servers = Unmarshal x raw
           in Inr ([servers], \<lparr>arr = 0, len = length servers\<rparr>)))"

text \<open>
  \<open>listNamesOutput\<close>, lines 76 to 85. The formatting functions only read their slice, so
  they take the servers it holds. Each returns the text it prints.
\<close>

definition listNamesOutput :: "Server list \<Rightarrow> string" where
  "listNamesOutput servers =
     (let buffer =
        fold (\<lambda>index buffer.
                let buffer = buffer @ Name (servers ! index)
                in if int index < int (length servers) - 1 then buffer @ '','' else buffer)
          [0..<length servers] []
      in buffer @ ''\<newline>'')"

text \<open>\<open>printJSONOutput\<close>, lines 87 to 94.\<close>

definition printJSONOutput :: "ext \<Rightarrow> Server list \<Rightarrow> string" where
  "printJSONOutput x servers =
     (case MarshalIndent x servers of
        Inl err \<Rightarrow> err @ ''\<newline>''
      | Inr serversJSON \<Rightarrow> serversJSON @ ''\<newline>'')"

text \<open>
  \<open>columnarOutput\<close>, lines 96 to 100. The verb \<open>%s\<close> prints a slice of strings between
  brackets, its elements separated by single spaces.
\<close>

fun sprint_strings :: "string list \<Rightarrow> string" where
  "sprint_strings [] = []"
| "sprint_strings [t] = t"
| "sprint_strings (t # ts) = t @ '' '' @ sprint_strings ts"

definition columnarOutput :: "Server list \<Rightarrow> string" where
  "columnarOutput servers =
     fold (\<lambda>server out.
             out @ Environment server @ '' '' @ Name server @ '' ''
                 @ ''['' @ sprint_strings (Tags server) @ '']'' @ ''\<newline>'')
       servers []"

text \<open>\<open>formatList\<close>, lines 102 to 110.\<close>

definition formatList :: "ext \<Rightarrow> Server list \<Rightarrow> string \<Rightarrow> string" where
  "formatList x servers format =
     (if format = ''names'' then listNamesOutput servers
      else if format = ''json'' then printJSONOutput x servers
      else columnarOutput servers)"

text \<open>
  The action of the \<open>list\<close> command, lines 214 to 220, given the values of the flags. The
  tag flag is split at commas, whatever it holds.
\<close>

definition list_action :: "ext \<Rightarrow> string \<Rightarrow> string \<Rightarrow> string \<Rightarrow> string \<Rightarrow> process" where
  "list_action x configFile environment tags format =
     (case getServers x configFile of
        Inl exited \<Rightarrow> exited
      | Inr (st, servers) \<Rightarrow>
          (let (st, servers) = filterServers st servers environment (Split tags CHR '','');
               out = formatList x (elems st servers) format
           in running\<lparr>stdout := out @ ''\<newline>'', exit_status := Some 0\<rparr>))"

section \<open>Dispatch and its report (\<open>exec\<close> mode)\<close>

text \<open>
  \<open>execCommand\<close>, lines 124 to 151, given the operating system's answer for this subprocess.
  \<open>log.Fatalf\<close> ends the process: the function then returns the message on the left.
\<close>

definition execCommand :: "(string list \<Rightarrow> helper_run) \<Rightarrow> Server \<Rightarrow> string \<Rightarrow> string
    \<Rightarrow> string + int \<times> string \<times> string" where
  "execCommand start_and_wait server user command =
     (let exit = 0 in
      case start_and_wait [''pmrun'', ''-h'', Name server, user, command] of
        StartFailed startErr \<Rightarrow> Inl (''cmd.Start: '' @ startErr)
      | Waited er stdoutBuf stderrBuf \<Rightarrow>
          (let exit = (case er of
                         None \<Rightarrow> exit
                       | Some (ExitError (WaitStatus status)) \<Rightarrow> status
                       | Some (ExitError OtherSys) \<Rightarrow> exit
                       | Some OtherError \<Rightarrow> exit)
           in Inr (exit, stdoutBuf, stderrBuf)))"

text \<open>\<open>red\<close>, \<open>green\<close>, \<open>white\<close> and \<open>colorizeExitCode\<close>, lines 153 to 172.\<close>

definition red :: "8 word \<times> 8 word \<times> 8 word" where
  "red = (255, 0, 0)"

definition green :: "8 word \<times> 8 word \<times> 8 word" where
  "green = (0, 255, 0)"

definition white :: "8 word \<times> 8 word \<times> 8 word" where
  "white = (255, 255, 255)"

definition colorizeExitCode :: "ext \<Rightarrow> int \<Rightarrow> string" where
  "colorizeExitCode x exitCode =
     (let (fr, fg, fb) = white;
          (br, bg, bb) = green;
          (br, bg, bb) = (if exitCode \<noteq> 0 then red else (br, bg, bb))
      in rgbterm_String x (Itoa exitCode) fr fg fb br bg bb)"

text \<open>The two \<open>Printf\<close> calls of the loop body, lines 239 to 242.\<close>

definition report :: "ext \<Rightarrow> Server \<Rightarrow> int \<Rightarrow> string \<Rightarrow> string \<Rightarrow> string" where
  "report x server exitCode out err =
     ''\<newline>'' @ pad 2 (colorizeExitCode x exitCode) @ ''['' @ pad 10 (Name server)
       @ ''] STDOUT: '' @ pad 10 (Trim out ''\<newline>'') @ ''\<newline>''
       @ (if err \<noteq> [] then ''STDERR: '' @ Trim err ''\<newline>'' @ ''\<newline>'' else [])"

text \<open>
  The loop of the \<open>exec\<close> command, lines 237 to 243. The subprocess started for a server is
  the next one of the run. A fatal message is logged to the error stream after the
  logger's prefix, and the process ends with status 1.
\<close>

fun exec_loop :: "ext \<Rightarrow> string \<Rightarrow> string \<Rightarrow> Server list \<Rightarrow> process \<Rightarrow> process" where
  "exec_loop x user cmd [] p = p"
| "exec_loop x user cmd (server # rest) p =
     (case execCommand (launch x (length (dispatched p))) server user cmd of
        Inl fatal \<Rightarrow>
          p\<lparr>dispatched := dispatched p @ [server],
            stderr := stderr p @ log_prefix x @ fatal @ ''\<newline>'',
            exit_status := Some 1\<rparr>
      | Inr (exitCode, out, err) \<Rightarrow>
          exec_loop x user cmd rest
            (p\<lparr>dispatched := dispatched p @ [server],
               stdout := stdout p @ report x server exitCode out err\<rparr>))"

text \<open>
  The action of the \<open>exec\<close> command, lines 233 to 246, given the values of the flags and the
  first positional argument. When the loop has not ended the process, the action prints an
  empty line and returns, and the process ends with status 0.
\<close>

definition exec_action :: "ext \<Rightarrow> string \<Rightarrow> string \<Rightarrow> string \<Rightarrow> string \<Rightarrow> string \<Rightarrow> process" where
  "exec_action x configFile environment tags user cmd =
     (case getServers x configFile of
        Inl exited \<Rightarrow> exited
      | Inr (st, servers) \<Rightarrow>
          (let (st, servers) = filterServers st servers environment (Split tags CHR '','');
               p = exec_loop x user cmd (elems st servers) running
           in case exit_status p of
                Some status \<Rightarrow> p
              | None \<Rightarrow> p\<lparr>stdout := stdout p @ ''\<newline>'', exit_status := Some 0\<rparr>))"

section \<open>Notions of the specification and of the proofs\<close>

text \<open>Names joined by single commas, as the specification words the \<open>names\<close> format.\<close>

fun comma_joined :: "string list \<Rightarrow> string" where
  "comma_joined [] = []"
| "comma_joined [n] = n"
| "comma_joined (n # m # ns) = n @ '','' @ comma_joined (m # ns)"

text \<open>The helper can be launched for a server, as the \<open>k\<close>-th subprocess of the run.\<close>

definition launches :: "ext \<Rightarrow> string \<Rightarrow> string \<Rightarrow> nat \<Rightarrow> Server \<Rightarrow> bool" where
  "launches x user cmd k server =
     (case launch x k [''pmrun'', ''-h'', Name server, user, cmd] of
        StartFailed e \<Rightarrow> False
      | Waited er out err \<Rightarrow> True)"

text \<open>The report of the \<open>k\<close>-th dispatch, with the exit code and output the helper gave.\<close>

definition rendered :: "ext \<Rightarrow> string \<Rightarrow> string \<Rightarrow> nat \<times> Server \<Rightarrow> string" where
  "rendered x user cmd js =
     (case execCommand (launch x (fst js)) (snd js) user cmd of
        Inl fatal \<Rightarrow> []
      | Inr (exitCode, out, err) \<Rightarrow> report x (snd js) exitCode out err)"

text \<open>
  Each filter stage, seen as a whole: the kept servers are moved to the front of the array
  and the rest of the array is left as it was.
\<close>

definition keep_loop :: "(Server \<Rightarrow> bool) \<Rightarrow> nat \<Rightarrow> nat \<Rightarrow> store \<times> Servers \<Rightarrow> store \<times> Servers" where
  "keep_loop P a m =
     fold (\<lambda>i (st, filtered).
             let server = st ! a ! i in
             if P server then append_s st filtered server else (st, filtered)) [0..<m]"

definition compact :: "(Server \<Rightarrow> bool) \<Rightarrow> store \<Rightarrow> Servers \<Rightarrow> store \<times> Servers" where
  "compact P st s =
     (let kept = filter P (elems st s)
      in (st[arr s := kept @ drop (length kept) (st ! arr s)], \<lparr>arr = arr s, len = length kept\<rparr>))"

definition matches_tag :: "string \<Rightarrow> Server \<Rightarrow> bool" where
  "matches_tag tag sv =
     (if HasPrefix tag ''!'' then TrimPrefix tag ''!'' \<notin> set (Tags sv) else tag \<in> set (Tags sv))"

definition selected :: "string \<Rightarrow> string list \<Rightarrow> Server \<Rightarrow> bool" where
  "selected environment tags sv \<longleftrightarrow>
     (environment = [] \<or> Environment sv = environment) \<and> (\<forall>tag \<in> set tags. matches_tag tag sv)"

text \<open>
  A stage or a sequence of stages works inside the array of its argument: no array is
  added, the other arrays and the elements beyond the argument's length are untouched, and
  every slot of the argument holds one of the servers it held before.
\<close>

definition reuses :: "store \<Rightarrow> Servers \<Rightarrow> store \<Rightarrow> Servers \<Rightarrow> bool" where
  "reuses st s st' s' \<longleftrightarrow>
     length st' = length st \<and> arr s' = arr s \<and> len s' \<le> len s \<and>
     length (st' ! arr s) = length (st ! arr s) \<and>
     (\<forall>b < length st. b \<noteq> arr s \<longrightarrow> st' ! b = st ! b) \<and>
     (\<forall>i < length (st ! arr s). len s \<le> i \<longrightarrow> st' ! arr s ! i = st ! arr s ! i) \<and>
     (\<forall>i < len s. st' ! arr s ! i \<in> set (elems st s))"

subsection \<open>The scenario of the specification and a sample world\<close>

definition srvA :: Server where
  "srvA = \<lparr>Name = ''A'', Environment = ''prod'', Tags = [''db'']\<rparr>"

definition srvB :: Server where
  "srvB = \<lparr>Name = ''B'', Environment = ''staging'', Tags = [''web'']\<rparr>"

definition srvC :: Server where
  "srvC = \<lparr>Name = ''C'', Environment = ''prod'', Tags = [''web'', ''db'']\<rparr>"

definition scenario :: store where
  "scenario = [[srvA, srvB, srvC]]"

definition inventory :: Servers where
  "inventory = \<lparr>arr = 0, len = 3\<rparr>"

text \<open>
  A world in which \<open>servers.json\<close> holds the scenario and the helper answers by position:
  the subprocess numbered \<open>failing\<close> cannot be started, the first one exits with 0, the
  second with 2, and the wait for any later one fails without an exit status.
\<close>

definition sample_ext :: "nat \<Rightarrow> ext" where
  "sample_ext failing =
     \<lparr>ReadFile = (\<lambda>path. if path = ''servers.json'' then Inr ''raw''
                           else Inl (''open '' @ path @ '': no such file or directory'')),
      Unmarshal = (\<lambda>raw. [srvA, srvB, srvC]),
      MarshalIndent = (\<lambda>servers. Inr ''[]''),
      rgbterm_String = (\<lambda>s fr fg fb br bg bb.
                          (if (br, bg, bb) = (0, 255, 0) then ''green:'' else ''other:'') @ s),
      log_prefix = ''2026/01/01 00:00:00 '',
      launch = (\<lambda>k argv. if k = failing then StartFailed ''executable file not found''
                          else if k = 0 then Waited None ''ok'' []
                          else if k = 1 then Waited (Some (ExitError (WaitStatus 2))) [] ''denied''
                          else Waited (Some OtherError) ''partial'' [])\<rparr>"

section \<open>The filter stages work in place\<close>

lemma keep_loop_0: "keep_loop P a 0 x = x"
  by (simp add: keep_loop_def)

lemma keep_loop_Suc:
  "keep_loop P a (Suc m) x =
     (case keep_loop P a m x of (st, filtered) \<Rightarrow>
        if P (st ! a ! m) then append_s st filtered (st ! a ! m) else (st, filtered))"
  by (simp add: keep_loop_def Let_def split: prod.splits)

lemma keep_loop_prefix:
  assumes "a < length st" and "m \<le> length (st ! a)"
  shows "keep_loop P a m (st, \<lparr>arr = a, len = 0\<rparr>) =
           (st[a := filter P (take m (st ! a)) @ drop (length (filter P (take m (st ! a)))) (st ! a)],
            \<lparr>arr = a, len = length (filter P (take m (st ! a)))\<rparr>)"
  using assms(2)
proof (induction m)
  case 0
  then show ?case by (simp add: keep_loop_0)
next
  case (Suc m)
  let ?A = "st ! a"
  let ?F = "filter P (take m ?A)"
  let ?k = "length ?F"
  from Suc.prems have m: "m < length ?A" by simp
  have k: "?k \<le> m" using length_filter_le[of P "take m ?A"] m by simp
  have IH: "keep_loop P a m (st, \<lparr>arr = a, len = 0\<rparr>) =
      (st[a := ?F @ drop ?k ?A], \<lparr>arr = a, len = ?k\<rparr>)"
    using Suc.IH m by simp
  have rd': "(?F @ drop ?k ?A) ! m = ?A ! m"
    using k m by (simp add: nth_append)
  have rd: "(st[a := ?F @ drop ?k ?A]) ! a ! m = ?A ! m"
    using assms(1) rd' by simp
  have tk: "take (Suc m) ?A = take m ?A @ [?A ! m]"
    using m by (simp add: take_Suc_conv_app_nth)
  show ?case
  proof (cases "P (?A ! m)")
    case False
    then show ?thesis
      by (simp add: keep_loop_Suc IH rd tk)
  next
    case True
    have kA: "?k < length ?A" using k m by simp
    have "drop ?k ?A = ?A ! ?k # drop (Suc ?k) ?A"
      using kA by (simp add: Cons_nth_drop_Suc)
    then have upd: "(?F @ drop ?k ?A)[?k := ?A ! m] = (?F @ [?A ! m]) @ drop (Suc ?k) ?A"
      by (simp add: list_update_append)
    show ?thesis
      using True assms(1) k m
      by (simp add: keep_loop_Suc IH rd rd' tk append_s_def cap_def upd del: append_assoc)
  qed
qed


lemma contains_iff: "contains tags t \<longleftrightarrow> t \<in> set tags"
  by (induction tags) auto

lemma reslice_0: "s\<lparr>len := 0\<rparr> = \<lparr>arr = arr s, len = 0\<rparr>"
  by (cases s) simp

lemma filterByEnvironment_compact:
  assumes "valid st s"
  shows "filterByEnvironment st s e = compact (\<lambda>sv. Environment sv = e) st s"
proof -
  have "filterByEnvironment st s e =
          keep_loop (\<lambda>sv. Environment sv = e) (arr s) (len s) (st, \<lparr>arr = arr s, len = 0\<rparr>)"
    by (simp add: filterByEnvironment_def keep_loop_def reslice_0)
  also have "\<dots> = compact (\<lambda>sv. Environment sv = e) st s"
    using assms keep_loop_prefix[of "arr s" st "len s"]
    by (simp add: valid_def cap_def compact_def elems_def Let_def)
  finally show ?thesis .
qed

lemma filterByTag_compact:
  assumes "valid st s"
  shows "filterByTag st s tag = compact (matches_tag tag) st s"
proof -
  have "filterByTag st s tag =
          keep_loop (matches_tag tag) (arr s) (len s) (st, \<lparr>arr = arr s, len = 0\<rparr>)"
  proof -
    have "(\<lambda>i (st, filtered).
             let server = st ! arr s ! i in
             if HasPrefix tag ''!''
             then (if \<not> contains (Tags server) (TrimPrefix tag ''!'')
                   then append_s st filtered server else (st, filtered))
             else (if contains (Tags server) tag
                   then append_s st filtered server else (st, filtered)))
        = (\<lambda>i (st, filtered).
             let server = st ! arr s ! i in
             if matches_tag tag server then append_s st filtered server else (st, filtered))"
      by (intro ext) (simp add: matches_tag_def contains_iff Let_def split: prod.splits)
    then show ?thesis
      by (simp add: filterByTag_def keep_loop_def reslice_0)
  qed
  also have "\<dots> = compact (matches_tag tag) st s"
    using assms keep_loop_prefix[of "arr s" st "len s"]
    by (simp add: valid_def cap_def compact_def elems_def Let_def)
  finally show ?thesis .
qed

lemma compact_elems:
  "valid st s \<Longrightarrow> compact P st s = (st', s') \<Longrightarrow> elems st' s' = filter P (elems st s)"
  by (auto simp: compact_def valid_def cap_def elems_def Let_def)

lemma compact_valid:
  "valid st s \<Longrightarrow> compact P st s = (st', s') \<Longrightarrow> valid st' s'"
  using length_filter_le[of P "take (len s) (st ! arr s)"]
  by (auto simp: compact_def valid_def cap_def elems_def Let_def)


lemma reuses_refl: "valid st s \<Longrightarrow> reuses st s st s"
  by (auto simp: reuses_def valid_def cap_def elems_def in_set_conv_nth)

lemma compact_reuses:
  assumes "valid st s" and "compact P st s = (st', s')"
  shows "reuses st s st' s'"
proof -
  let ?A = "st ! arr s"
  let ?F = "filter P (take (len s) ?A)"
  let ?k = "length ?F"
  from assms(1) have a: "arr s < length st" and n: "len s \<le> length ?A"
    by (simp_all add: valid_def cap_def)
  have k: "?k \<le> len s"
    using length_filter_le[of P "take (len s) ?A"] n by simp
  from assms(2) have st': "st' = st[arr s := ?F @ drop ?k ?A]"
    and s': "s' = \<lparr>arr = arr s, len = ?k\<rparr>"
    by (simp_all add: compact_def elems_def Let_def)
  have A': "st' ! arr s = ?F @ drop ?k ?A"
    using a by (simp add: st')
  have hi: "st' ! arr s ! i = ?A ! i" if "i < length ?A" "?k \<le> i" for i
    using that by (simp add: A' nth_append)
  have lo: "st' ! arr s ! i \<in> set (elems st s)" if "i < len s" for i
  proof (cases "i < ?k")
    case True
    then have "st' ! arr s ! i = ?F ! i" by (simp add: A' nth_append)
    moreover have "?F ! i \<in> set ?F" using True by (rule nth_mem)
    moreover have "set ?F \<subseteq> set (take (len s) ?A)" by (rule filter_is_subset)
    ultimately show ?thesis unfolding elems_def by auto
  next
    case False
    then have "st' ! arr s ! i = ?A ! i" using hi that n by simp
    moreover have "?A ! i \<in> set (take (len s) ?A)"
      using that n by (auto simp: in_set_conv_nth intro!: exI[of _ i])
    ultimately show ?thesis by (simp add: elems_def)
  qed
  show ?thesis
    unfolding reuses_def
    using a n k hi lo by (auto simp: s' A') (simp add: st')+
qed

lemma reuses_trans:
  assumes v: "valid st s" and r1: "reuses st s st' s'" and r2: "reuses st' s' st'' s''"
  shows "reuses st s st'' s''"
proof -
  let ?a = "arr s"
  from r1 have a': "arr s' = ?a" and l1: "length st' = length st" and n1: "len s' \<le> len s"
    and L1: "length (st' ! ?a) = length (st ! ?a)"
    and o1: "\<And>b. b < length st \<Longrightarrow> b \<noteq> ?a \<Longrightarrow> st' ! b = st ! b"
    and h1: "\<And>i. i < length (st ! ?a) \<Longrightarrow> len s \<le> i \<Longrightarrow> st' ! ?a ! i = st ! ?a ! i"
    and e1: "\<And>i. i < len s \<Longrightarrow> st' ! ?a ! i \<in> set (elems st s)"
    by (simp_all add: reuses_def)
  from r2 a' have l2: "length st'' = length st'" and a'': "arr s'' = ?a" and n2: "len s'' \<le> len s'"
    and L2: "length (st'' ! ?a) = length (st' ! ?a)"
    and o2: "\<And>b. b < length st' \<Longrightarrow> b \<noteq> ?a \<Longrightarrow> st'' ! b = st' ! b"
    and h2: "\<And>i. i < length (st' ! ?a) \<Longrightarrow> len s' \<le> i \<Longrightarrow> st'' ! ?a ! i = st' ! ?a ! i"
    and e2: "\<And>i. i < len s' \<Longrightarrow> st'' ! ?a ! i \<in> set (elems st' s')"
    by (simp_all add: reuses_def)
  from v have n: "len s \<le> length (st ! ?a)" by (simp add: valid_def cap_def)
  have sub: "set (elems st' s') \<subseteq> set (elems st s)"
  proof
    fix x assume "x \<in> set (elems st' s')"
    then obtain j where j: "j < len s'" "j < length (st' ! ?a)" and x: "x = st' ! ?a ! j"
      by (auto simp: elems_def a' in_set_conv_nth)
    from j n1 have "j < len s" by simp
    then show "x \<in> set (elems st s)" using e1 x by simp
  qed
  have lo: "st'' ! ?a ! i \<in> set (elems st s)" if "i < len s" for i
  proof (cases "i < len s'")
    case True
    then show ?thesis using e2 sub by blast
  next
    case False
    then have "st'' ! ?a ! i = st' ! ?a ! i" using h2[of i] that n L1 by simp
    then show ?thesis using e1 that by simp
  qed
  have hi: "st'' ! ?a ! i = st ! ?a ! i" if "i < length (st ! ?a)" "len s \<le> i" for i
    using that h1[of i] h2[of i] L1 n1 by simp
  show ?thesis
    unfolding reuses_def
    using l1 l2 a'' n1 n2 L1 L2 o1 o2 hi lo by auto
qed

lemma fold_filterByTag:
  assumes "valid st s"
    and "fold (\<lambda>tag (st, servers). filterByTag st servers tag) tags (st, s) = (st', s')"
  shows "valid st' s' \<and>
         elems st' s' = filter (\<lambda>sv. \<forall>tag \<in> set tags. matches_tag tag sv) (elems st s) \<and>
         reuses st s st' s'"
  using assms
proof (induction tags arbitrary: st s)
  case Nil
  then show ?case by (simp add: reuses_refl)
next
  case (Cons tag tags)
  obtain st1 s1 where c: "compact (matches_tag tag) st s = (st1, s1)"
    by (cases "compact (matches_tag tag) st s") simp
  from Cons.prems(1) c have v1: "valid st1 s1"
    and e1: "elems st1 s1 = filter (matches_tag tag) (elems st s)"
    and r1: "reuses st s st1 s1"
    by (simp_all add: compact_valid compact_elems compact_reuses)
  from Cons.prems have "fold (\<lambda>tag (st, servers). filterByTag st servers tag) tags (st1, s1) = (st', s')"
    by (simp add: filterByTag_compact c)
  from Cons.IH[OF v1 this] have v': "valid st' s'"
    and e': "elems st' s' = filter (\<lambda>sv. \<forall>tag \<in> set tags. matches_tag tag sv) (elems st1 s1)"
    and r': "reuses st1 s1 st' s'"
    by simp_all
  have "reuses st s st' s'"
    using reuses_trans[OF Cons.prems(1) r1 r'] .
  moreover have "elems st' s' = filter (\<lambda>sv. \<forall>tag \<in> set (tag # tags). matches_tag tag sv) (elems st s)"
    by (simp add: e' e1)
  ultimately show ?case using v' by simp
qed

lemma filterServers_props:
  assumes "valid st s" and "filterServers st s e tags = (st', s')"
  shows "valid st' s' \<and> elems st' s' = filter (selected e tags) (elems st s) \<and> reuses st s st' s'"
proof -
  obtain st1 s1 where env: "(if e \<noteq> [] then filterByEnvironment st s e else (st, s)) = (st1, s1)"
    by (cases "if e \<noteq> [] then filterByEnvironment st s e else (st, s)") simp
  have v1: "valid st1 s1"
    and e1: "elems st1 s1 = filter (\<lambda>sv. e = [] \<or> Environment sv = e) (elems st s)"
    and r1: "reuses st s st1 s1"
    using env assms(1)
    by (auto simp: filterByEnvironment_compact reuses_refl split: if_splits
             dest: compact_valid compact_elems intro: compact_reuses)
  from assms(2) env
  have "fold (\<lambda>tag (st, servers). filterByTag st servers tag) tags (st1, s1) = (st', s')"
    by (cases tags) (simp_all add: filterServers_def)
  from fold_filterByTag[OF v1 this] have v': "valid st' s'"
    and e': "elems st' s' = filter (\<lambda>sv. \<forall>tag \<in> set tags. matches_tag tag sv) (elems st1 s1)"
    and r': "reuses st1 s1 st' s'"
    by simp_all
  have "selected e tags = (\<lambda>sv. (e = [] \<or> Environment sv = e) \<and> (\<forall>tag \<in> set tags. matches_tag tag sv))"
    by (simp add: fun_eq_iff selected_def)
  then have "elems st' s' = filter (selected e tags) (elems st s)"
    by (simp add: e' e1)
  then show ?thesis
    using v' reuses_trans[OF assms(1) r1 r'] by simp
qed

lemma select_filter:
  "valid st s \<Longrightarrow> select st s e tags = filter (selected e tags) (elems st s)"
  by (cases "filterServers st s e tags") (simp add: select_def filterServers_props)



subsection \<open>The names line\<close>

lemma names_loop_prefix:
  "m < length servers \<Longrightarrow>
   fold (\<lambda>index buffer.
           let buffer = buffer @ Name (servers ! index)
           in if int index < int (length servers) - 1 then buffer @ '','' else buffer)
     [0..<m] [] = concat (map (\<lambda>sv. Name sv @ '','') (take m servers))"
proof (induction m)
  case 0
  then show ?case by simp
next
  case (Suc m)
  then have "int m < int (length servers) - 1" by simp
  with Suc show ?case
    by (simp add: Let_def take_Suc_conv_app_nth)
qed

lemma comma_joined_snoc:
  "comma_joined (ns @ [n]) = concat (map (\<lambda>m. m @ '','') ns) @ n"
proof (induction ns)
  case Nil
  then show ?case by simp
next
  case (Cons a ns)
  then show ?case by (cases ns) simp_all
qed

lemma listNamesOutput_joined:
  "listNamesOutput servers = comma_joined (map Name servers) @ ''\<newline>''"
proof (cases servers rule: rev_cases)
  case Nil
  then show ?thesis by (simp add: listNamesOutput_def)
next
  case (snoc front l)
  let ?m = "length front"
  have m: "?m < length servers" and n: "length servers = Suc ?m"
    using snoc by simp_all
  have "\<not> int ?m < int (length servers) - 1" using n by simp
  then show ?thesis
    unfolding listNamesOutput_def n upt_Suc_append[OF le0] fold_append comp_def
    using names_loop_prefix[OF m] snoc
    by (simp add: Let_def comma_joined_snoc comp_def)
qed

subsection \<open>The dispatch loop\<close>

lemma execCommand_launched:
  "launches x user cmd k server \<Longrightarrow>
   \<exists>exitCode out err. execCommand (launch x k) server user cmd = Inr (exitCode, out, err)"
  by (auto simp: launches_def execCommand_def Let_def split: helper_run.splits)

lemma execCommand_not_launched:
  "\<not> launches x user cmd k server \<Longrightarrow>
   \<exists>fatal. execCommand (launch x k) server user cmd = Inl fatal"
  by (auto simp: launches_def execCommand_def Let_def split: helper_run.splits)

lemma exec_loop_completes:
  assumes "\<forall>j < length ss. launches x user cmd (length (dispatched p) + j) (ss ! j)"
  shows "exit_status (exec_loop x user cmd ss p) = exit_status p \<and>
         dispatched (exec_loop x user cmd ss p) = dispatched p @ ss \<and>
         stderr (exec_loop x user cmd ss p) = stderr p \<and>
         stdout (exec_loop x user cmd ss p) =
           stdout p @ concat (map (rendered x user cmd) (enumerate (length (dispatched p)) ss))"
  using assms
proof (induction ss arbitrary: p)
  case Nil
  then show ?case by simp
next
  case (Cons server rest)
  let ?k = "length (dispatched p)"
  from Cons.prems have "launches x user cmd ?k server" by force
  then obtain exitCode out err
    where ec: "execCommand (launch x ?k) server user cmd = Inr (exitCode, out, err)"
    using execCommand_launched by blast
  let ?p = "p\<lparr>dispatched := dispatched p @ [server],
              stdout := stdout p @ report x server exitCode out err\<rparr>"
  have "\<forall>j < length rest. launches x user cmd (length (dispatched ?p) + j) (rest ! j)"
  proof (intro allI impI)
    fix j assume "j < length rest"
    then have "launches x user cmd (?k + Suc j) ((server # rest) ! Suc j)"
      using Cons.prems by (metis Suc_less_eq length_Cons)
    then show "launches x user cmd (length (dispatched ?p) + j) (rest ! j)" by simp
  qed
  from Cons.IH[OF this] show ?case
    by (simp add: ec rendered_def)
qed

lemma exec_loop_aborts:
  assumes "k < length ss"
    and "\<forall>j < k. launches x user cmd (length (dispatched p) + j) (ss ! j)"
    and "\<not> launches x user cmd (length (dispatched p) + k) (ss ! k)"
  shows "exit_status (exec_loop x user cmd ss p) = Some 1 \<and>
         dispatched (exec_loop x user cmd ss p) = dispatched p @ take (Suc k) ss \<and>
         stderr (exec_loop x user cmd ss p) \<noteq> [] \<and>
         stdout (exec_loop x user cmd ss p) = stdout (exec_loop x user cmd (take k ss) p)"
  using assms
proof (induction ss arbitrary: p k)
  case Nil
  then show ?case by simp
next
  case (Cons server rest)
  let ?n = "length (dispatched p)"
  show ?case
  proof (cases k)
    case 0
    with Cons.prems(3) obtain fatal
      where "execCommand (launch x ?n) server user cmd = Inl fatal"
      using execCommand_not_launched by force
    with 0 show ?thesis by simp
  next
    case (Suc k')
    from Cons.prems(2) Suc have "launches x user cmd ?n server" by force
    then obtain exitCode out err
      where ec: "execCommand (launch x ?n) server user cmd = Inr (exitCode, out, err)"
      using execCommand_launched by blast
    let ?p = "p\<lparr>dispatched := dispatched p @ [server],
                stdout := stdout p @ report x server exitCode out err\<rparr>"
    have a: "k' < length rest" using Cons.prems(1) Suc by simp
    have b: "\<forall>j < k'. launches x user cmd (length (dispatched ?p) + j) (rest ! j)"
    proof (intro allI impI)
      fix j assume "j < k'"
      then have "launches x user cmd (?n + Suc j) ((server # rest) ! Suc j)"
        using Cons.prems(2) Suc by (metis Suc_less_eq)
      then show "launches x user cmd (length (dispatched ?p) + j) (rest ! j)" by simp
    qed
    have c: "\<not> launches x user cmd (length (dispatched ?p) + k') (rest ! k')"
      using Cons.prems(3) Suc by simp
    from Cons.IH[OF a b c] show ?thesis
      by (simp add: ec Suc)
  qed
qed


lemma exec_action_selected:
  assumes "getServers x configFile = Inr (st, servers)"
  shows "exec_action x configFile environment tags user cmd =
           (let p = exec_loop x user cmd (select st servers environment (Split tags CHR '','')) running
            in case exit_status p of
                 Some status \<Rightarrow> p
               | None \<Rightarrow> p\<lparr>stdout := stdout p @ ''\<newline>'', exit_status := Some 0\<rparr>)"
  using assms by (simp add: exec_action_def select_def split: prod.splits)

lemma Itoa_0: "Itoa 0 = ''0''"
  by code_simp

lemma colorize_zero: "colorizeExitCode x 0 = rgbterm_String x ''0'' 255 255 255 0 255 0"
  by (simp add: colorizeExitCode_def white_def green_def Itoa_0)

section \<open>Properties of the specification\<close>

text \<open>
  C2. With no tag expressions, a non-empty environment \<open>e\<close> selects exactly the servers whose
  environment field equals \<open>e\<close> (equality of strings, so case-sensitive), in their original
  order; the empty environment selects the inventory unchanged.
\<close>

theorem select_environment_only:
  assumes "valid st s"
  shows "(e \<noteq> [] \<longrightarrow> select st s e [] = filter (\<lambda>sv. Environment sv = e) (elems st s)) \<and>
         select st s [] [] = elems st s"
  using assms by (simp add: select_filter selected_def[abs_def])

theorem select_environment_only_witness:
  "valid scenario inventory \<and> ''prod'' \<noteq> [] \<and>
   select scenario inventory ''prod'' [] = filter (\<lambda>sv. Environment sv = ''prod'') (elems scenario inventory) \<and>
   select scenario inventory ''prod'' [] = [srvA, srvC] \<and>
   select scenario inventory [] [] = [srvA, srvB, srvC]"
proof -
  have h: "valid scenario inventory" by code_simp
  have v: "select scenario inventory ''prod'' [] = [srvA, srvC]" by code_simp
  have w: "elems scenario inventory = [srvA, srvB, srvC]" by code_simp
  from select_environment_only[OF h, of "''prod''"] h v w show ?thesis by simp
qed


text \<open>
  C1. When no tags are given, \<open>main\<close> passes \<open>strings.Split("", ",")\<close>, the one-element
  sequence holding the empty string, and \<open>filterServers\<close> then keeps only servers carrying
  an empty tag: on the three-server scenario nothing is selected and the names line is empty,
  whereas the empty tag sequence selects all three.
\<close>

theorem unset_tags_select_only_empty_tagged:
  "Split [] CHR '','' = [[]] \<and>
   select scenario inventory [] [[]] = [] \<and>
   select scenario inventory [] [] = [srvA, srvB, srvC] \<and>
   stdout (list_action (sample_ext 3) ''servers.json'' [] [] ''names'') = ''\<newline>\<newline>''"
  by code_simp

text \<open>
  C3, as stated, fails for a tag name that itself begins with \<open>!\<close>: the expression \<open>!x\<close>
  is read as the exclusion of \<open>x\<close>, so on the scenario it selects server A, which lacks
  \<open>x\<close> and is not tagged \<open>!x\<close>.
\<close>

theorem bang_tag_name_counterexample:
  "srvA \<in> set (select scenario inventory [] [''!x'']) \<and> ''!x'' \<notin> set (Tags srvA)"
  by code_simp

text \<open>
  C3, amended. For a tag name \<open>t\<close> that does not begin with \<open>!\<close>, the expression \<open>t\<close>
  selects exactly the servers whose tags contain \<open>t\<close>, and applying \<open>t\<close> and then \<open>!t\<close>
  selects nothing; for every \<open>t\<close>, the expression \<open>!t\<close> selects exactly the servers whose
  tags do not contain \<open>t\<close>, the complement within the inventory.
\<close>

theorem select_tag_and_complement:
  assumes "valid st s"
  shows "(\<not> HasPrefix t ''!'' \<longrightarrow>
            select st s [] [t] = filter (\<lambda>sv. t \<in> set (Tags sv)) (elems st s) \<and>
            select st s [] [t, CHR ''!'' # t] = []) \<and>
         select st s [] [CHR ''!'' # t] = filter (\<lambda>sv. t \<notin> set (Tags sv)) (elems st s)"
proof -
  have neg: "matches_tag (CHR ''!'' # t) = (\<lambda>sv. t \<notin> set (Tags sv))"
    by (simp add: fun_eq_iff matches_tag_def HasPrefix_def TrimPrefix_def)
  have pos: "matches_tag t = (\<lambda>sv. t \<in> set (Tags sv))" if "\<not> HasPrefix t ''!''"
    using that by (simp add: fun_eq_iff matches_tag_def)
  show ?thesis
    using assms by (auto simp: select_filter selected_def[abs_def] neg pos)
qed

theorem select_tag_and_complement_witness:
  "valid scenario inventory \<and> \<not> HasPrefix ''db'' ''!'' \<and>
   select scenario inventory [] [''db''] = filter (\<lambda>sv. ''db'' \<in> set (Tags sv)) (elems scenario inventory) \<and>
   select scenario inventory [] [''db''] = [srvA, srvC] \<and>
   select scenario inventory [] [''db'', ''!db''] = [] \<and>
   select scenario inventory [] [''!db''] = filter (\<lambda>sv. ''db'' \<notin> set (Tags sv)) (elems scenario inventory) \<and>
   select scenario inventory [] [''!db''] = [srvB]"
proof -
  have h: "valid scenario inventory" by code_simp
  have p: "\<not> HasPrefix ''db'' ''!''" by code_simp
  have v: "select scenario inventory [] [''db''] = [srvA, srvC]"
    "select scenario inventory [] [''!db''] = [srvB]" by code_simp+
  from select_tag_and_complement[OF h, of "''db''"] h p v show ?thesis by simp
qed





text \<open>
  C6. Selection is idempotent: selecting again, with the same environment and tag
  expressions, from the slice and the store that a selection returned gives the same servers.
\<close>

theorem select_idempotent:
  assumes "valid st s"
  shows "select (fst (filterServers st s e tags)) (snd (filterServers st s e tags)) e tags
           = select st s e tags"
proof -
  obtain st' s' where f: "filterServers st s e tags = (st', s')"
    by (cases "filterServers st s e tags") simp
  from filterServers_props[OF assms f]
  have v': "valid st' s'" and el: "elems st' s' = filter (selected e tags) (elems st s)"
    by simp_all
  have "select st' s' e tags = filter (selected e tags) (elems st' s')"
    using v' by (rule select_filter)
  also have "\<dots> = filter (selected e tags) (elems st s)"
    by (simp add: el)
  also have "\<dots> = select st s e tags"
    using assms by (simp add: select_filter)
  finally show ?thesis by (simp add: f)
qed

theorem select_idempotent_witness:
  "valid scenario inventory \<and>
   select (fst (filterServers scenario inventory ''prod'' [''web'']))
          (snd (filterServers scenario inventory ''prod'' [''web''])) ''prod'' [''web'']
     = select scenario inventory ''prod'' [''web''] \<and>
   select scenario inventory ''prod'' [''web''] = [srvC]"
proof -
  have h: "valid scenario inventory" by code_simp
  have v: "select scenario inventory ''prod'' [''web''] = [srvC]" by code_simp
  from select_idempotent[OF h, of "''prod''" "[''web'']"] h v show ?thesis by blast
qed

text \<open>
  C7. Selection preserves order: the selected servers are a subsequence of the inventory,
  namely the inventory with the servers that were not selected deleted and nothing moved.
\<close>

theorem select_order_preserving:
  assumes "valid st s"
  shows "subseq (select st s e tags) (elems st s) \<and>
         select st s e tags = filter (\<lambda>sv. sv \<in> set (select st s e tags)) (elems st s)"
proof -
  have sel: "select st s e tags = filter (selected e tags) (elems st s)"
    using assms by (rule select_filter)
  have "filter (\<lambda>sv. sv \<in> set (filter (selected e tags) (elems st s))) (elems st s)
          = filter (selected e tags) (elems st s)"
    by (rule filter_cong) auto
  then show ?thesis by (simp add: sel)
qed

theorem select_order_preserving_witness:
  "valid scenario inventory \<and>
   subseq (select scenario inventory [] [''web'']) (elems scenario inventory) \<and>
   select scenario inventory [] [''web''] = [srvB, srvC] \<and>
   elems scenario inventory = [srvA, srvB, srvC]"
proof -
  have h: "valid scenario inventory" by code_simp
  have v: "select scenario inventory [] [''web''] = [srvB, srvC]" by code_simp
  have w: "elems scenario inventory = [srvA, srvB, srvC]" by code_simp
  from select_order_preserving[OF h, of "[]" "[''web'']"] h v w show ?thesis by blast
qed

text \<open>
  C9. The \<open>names\<close> format prints one line: the names of the servers joined by single
  commas, with nothing before the first name and nothing after the last but the newline;
  for the two servers A and C selected from the scenario the line is \<open>A,C\<close>.
\<close>

theorem names_format_comma_joined:
  "formatList x servers ''names'' = comma_joined (map Name servers) @ ''\<newline>'' \<and>
   formatList x (select scenario inventory ''prod'' []) ''names'' = ''A,C\<newline>''"
proof -
  have "select scenario inventory ''prod'' [] = [srvA, srvC]" by code_simp
  moreover have "comma_joined (map Name [srvA, srvC]) = ''A,C''" by code_simp
  ultimately show ?thesis
    by (simp add: formatList_def listNamesOutput_joined)
qed

text \<open>
  C10. The exit-code indicator is the decimal exit code passed to the colour library with
  foreground white (255, 255, 255) and background green (0, 255, 0) when the exit code is 0,
  and with foreground white and background red (255, 0, 0) for every other exit code.
\<close>

theorem colorizeExitCode_white_on_green_or_red:
  "colorizeExitCode x 0 = rgbterm_String x ''0'' 255 255 255 0 255 0 \<and>
   (exitCode \<noteq> 0 \<longrightarrow>
      colorizeExitCode x exitCode = rgbterm_String x (Itoa exitCode) 255 255 255 255 0 0)"
  by (simp add: colorize_zero) (simp add: colorizeExitCode_def white_def green_def red_def)

theorem colorizeExitCode_white_on_green_or_red_witness:
  "(2::int) \<noteq> 0 \<and>
   colorizeExitCode (sample_ext 3) 2 = rgbterm_String (sample_ext 3) (Itoa 2) 255 255 255 255 0 0 \<and>
   Itoa 2 = ''2'' \<and> Itoa (- 1) = ''-1'' \<and> Itoa 127 = ''127''"
proof -
  have h: "(2::int) \<noteq> 0" by simp
  have d: "Itoa 2 = ''2''" "Itoa (- 1) = ''-1''" "Itoa 127 = ''127''" by code_simp+
  from colorizeExitCode_white_on_green_or_red[of "sample_ext 3" 2] h d show ?thesis by blast
qed


text \<open>
  C4. In \<open>exec\<close> mode with a readable inventory: if the helper launches for the first \<open>k\<close>
  selected servers and fails to launch for the next one, the run ends with exit status 1
  and a diagnostic on the error stream, having dispatched to those \<open>k + 1\<close> servers only and
  printed the reports of the first \<open>k\<close>; if the helper launches for every selected server,
  whatever exit codes it returns, every server is dispatched to and reported in order,
  nothing is written to the error stream, and the exit status is 0.
\<close>

theorem launch_failure_fatal_remote_failure_reported:
  assumes "getServers x configFile = Inr (st, servers)"
  shows "(k < length (select st servers environment (Split tags CHR '','')) \<and>
          (\<forall>j < k. launches x user cmd j (select st servers environment (Split tags CHR '','') ! j)) \<and>
          \<not> launches x user cmd k (select st servers environment (Split tags CHR '','') ! k)
          \<longrightarrow>
            exit_status (exec_action x configFile environment tags user cmd) = Some 1 \<and>
            stderr (exec_action x configFile environment tags user cmd) \<noteq> [] \<and>
            dispatched (exec_action x configFile environment tags user cmd)
              = take (Suc k) (select st servers environment (Split tags CHR '','')) \<and>
            stdout (exec_action x configFile environment tags user cmd)
              = concat (map (rendered x user cmd)
                  (enumerate 0 (take k (select st servers environment (Split tags CHR '',''))))))
         \<and>
         ((\<forall>j < length (select st servers environment (Split tags CHR '','')).
              launches x user cmd j (select st servers environment (Split tags CHR '','') ! j))
          \<longrightarrow>
            exit_status (exec_action x configFile environment tags user cmd) = Some 0 \<and>
            stderr (exec_action x configFile environment tags user cmd) = [] \<and>
            dispatched (exec_action x configFile environment tags user cmd)
              = select st servers environment (Split tags CHR '','') \<and>
            stdout (exec_action x configFile environment tags user cmd)
              = concat (map (rendered x user cmd)
                  (enumerate 0 (select st servers environment (Split tags CHR '','')))) @ ''\<newline>'')"
proof -
  let ?sel = "select st servers environment (Split tags CHR '','')"
  let ?p = "exec_loop x user cmd ?sel running"
  let ?run = "exec_action x configFile environment tags user cmd"
  have run: "?run = (case exit_status ?p of
                       Some status \<Rightarrow> ?p
                     | None \<Rightarrow> ?p\<lparr>stdout := stdout ?p @ ''\<newline>'', exit_status := Some 0\<rparr>)"
    using exec_action_selected[OF assms] by (simp add: Let_def)
  have d0: "length (dispatched running) = 0" "dispatched running = []" "stdout running = []"
    "stderr running = []" "exit_status running = None"
    by (simp_all add: running_def)
  have abort: "exit_status ?run = Some 1 \<and> stderr ?run \<noteq> [] \<and>
               dispatched ?run = take (Suc k) ?sel \<and>
               stdout ?run = concat (map (rendered x user cmd) (enumerate 0 (take k ?sel)))"
    if k: "k < length ?sel" and before: "\<forall>j < k. launches x user cmd j (?sel ! j)"
      and fail: "\<not> launches x user cmd k (?sel ! k)"
  proof -
    have "exit_status ?p = Some 1 \<and> dispatched ?p = dispatched running @ take (Suc k) ?sel \<and>
          stderr ?p \<noteq> [] \<and> stdout ?p = stdout (exec_loop x user cmd (take k ?sel) running)"
      using k before fail by (intro exec_loop_aborts) (simp_all add: d0)
    moreover have "stdout (exec_loop x user cmd (take k ?sel) running) =
        stdout running @ concat (map (rendered x user cmd)
                                   (enumerate (length (dispatched running)) (take k ?sel)))"
      using k before exec_loop_completes[of "take k ?sel" x user cmd running] by (simp add: d0)
    ultimately show ?thesis by (simp add: run d0)
  qed
  have complete: "exit_status ?run = Some 0 \<and> stderr ?run = [] \<and> dispatched ?run = ?sel \<and>
               stdout ?run = concat (map (rendered x user cmd) (enumerate 0 ?sel)) @ ''\<newline>''"
    if "\<forall>j < length ?sel. launches x user cmd j (?sel ! j)"
    using that exec_loop_completes[of ?sel x user cmd running] by (simp add: run d0)
  from abort complete show ?thesis by blast
qed

theorem launch_failure_fatal_remote_failure_reported_witness:
  "getServers (sample_ext 1) ''servers.json'' = Inr (scenario, inventory) \<and>
   select scenario inventory [] (Split ''!x'' CHR '','') = [srvA, srvB, srvC] \<and>
   launches (sample_ext 1) ''root'' ''uptime'' 0 srvA \<and>
   \<not> launches (sample_ext 1) ''root'' ''uptime'' 1 srvB \<and>
   exit_status (exec_action (sample_ext 1) ''servers.json'' [] ''!x'' ''root'' ''uptime'') = Some 1 \<and>
   dispatched (exec_action (sample_ext 1) ''servers.json'' [] ''!x'' ''root'' ''uptime'') = [srvA, srvB] \<and>
   getServers (sample_ext 3) ''servers.json'' = Inr (scenario, inventory) \<and>
   launches (sample_ext 3) ''root'' ''uptime'' 0 srvA \<and>
   launches (sample_ext 3) ''root'' ''uptime'' 1 srvB \<and>
   launches (sample_ext 3) ''root'' ''uptime'' 2 srvC \<and>
   execCommand (launch (sample_ext 3) 1) srvB ''root'' ''uptime'' = Inr (2, [], ''denied'') \<and>
   exit_status (exec_action (sample_ext 3) ''servers.json'' [] ''!x'' ''root'' ''uptime'') = Some 0 \<and>
   dispatched (exec_action (sample_ext 3) ''servers.json'' [] ''!x'' ''root'' ''uptime'') = [srvA, srvB, srvC]"
proof -
  let ?sel = "select scenario inventory [] (Split ''!x'' CHR '','')"
  have g1: "getServers (sample_ext 1) ''servers.json'' = Inr (scenario, inventory)" by code_simp
  have g3: "getServers (sample_ext 3) ''servers.json'' = Inr (scenario, inventory)" by code_simp
  have sel: "?sel = [srvA, srvB, srvC]"
    "select scenario inventory [] [''!x''] = [srvA, srvB, srvC]" by code_simp+
  have l1: "launches (sample_ext 1) ''root'' ''uptime'' 0 srvA"
    "\<not> launches (sample_ext 1) ''root'' ''uptime'' 1 srvB" by code_simp+
  have l3: "launches (sample_ext 3) ''root'' ''uptime'' 0 srvA"
    "launches (sample_ext 3) ''root'' ''uptime'' 1 srvB"
    "launches (sample_ext 3) ''root'' ''uptime'' 2 srvC" by code_simp+
  have ec: "execCommand (launch (sample_ext 3) 1) srvB ''root'' ''uptime'' = Inr (2, [], ''denied'')"
    by code_simp
  have a: "1 < length ?sel \<and> (\<forall>j < 1. launches (sample_ext 1) ''root'' ''uptime'' j (?sel ! j)) \<and>
           \<not> launches (sample_ext 1) ''root'' ''uptime'' 1 (?sel ! 1)"
    using l1 by (simp add: sel)
  have b: "\<forall>j < length ?sel. launches (sample_ext 3) ''root'' ''uptime'' j (?sel ! j)"
  proof (intro allI impI)
    fix j assume "j < length ?sel"
    then have "j < 3" by (simp add: sel)
    then have "j = 0 \<or> j = 1 \<or> j = 2" by arith
    then show "launches (sample_ext 3) ''root'' ''uptime'' j (?sel ! j)"
      using l3 by (auto simp: sel)
  qed
  from launch_failure_fatal_remote_failure_reported[OF g1, of 1 "[]" "''!x''" "''root''" "''uptime''"] a
  have r1: "exit_status (exec_action (sample_ext 1) ''servers.json'' [] ''!x'' ''root'' ''uptime'') = Some 1"
    "dispatched (exec_action (sample_ext 1) ''servers.json'' [] ''!x'' ''root'' ''uptime'') = [srvA, srvB]"
    by (simp_all add: sel)
  from launch_failure_fatal_remote_failure_reported[OF g3, of 0 "[]" "''!x''" "''root''" "''uptime''"] b
  have r3: "exit_status (exec_action (sample_ext 3) ''servers.json'' [] ''!x'' ''root'' ''uptime'') = Some 0"
    "dispatched (exec_action (sample_ext 3) ''servers.json'' [] ''!x'' ''root'' ''uptime'') = [srvA, srvB, srvC]"
    by (simp_all add: sel)
  from g1 g3 sel(1) l1 l3 ec r1 r3 show ?thesis by blast
qed

text \<open>
  C8. When \<open>cmd.Wait\<close> fails with an error that is not an \<open>*exec.ExitError\<close>, or with one
  whose process status is not a \<open>syscall.WaitStatus\<close>, \<open>execCommand\<close> returns exit code 0 with
  the captured output, and the \<open>exec\<close> loop reports that server with the indicator of exit
  code 0, white on green.
\<close>

theorem wait_failure_without_status_reported_as_exit_0:
  assumes "launch x (length (dispatched p)) [''pmrun'', ''-h'', Name server, user, command]
             = Waited (Some er) out err"
    and "er = OtherError \<or> er = ExitError OtherSys"
  shows "execCommand (launch x (length (dispatched p))) server user command = Inr (0, out, err) \<and>
         exec_loop x user command [server] p
           = p\<lparr>dispatched := dispatched p @ [server],
               stdout := stdout p @ report x server 0 out err\<rparr> \<and>
         colorizeExitCode x 0 = rgbterm_String x ''0'' 255 255 255 0 255 0"
proof -
  have "execCommand (launch x (length (dispatched p))) server user command = Inr (0, out, err)"
    using assms by (auto simp: execCommand_def)
  then show ?thesis by (simp add: colorize_zero)
qed

theorem wait_failure_without_status_reported_as_exit_0_witness:
  "launch (sample_ext 3) (length (dispatched (running\<lparr>dispatched := [srvA, srvB]\<rparr>)))
       [''pmrun'', ''-h'', Name srvC, ''root'', ''uptime'']
     = Waited (Some OtherError) ''partial'' [] \<and>
   execCommand (launch (sample_ext 3) (length (dispatched (running\<lparr>dispatched := [srvA, srvB]\<rparr>))))
       srvC ''root'' ''uptime'' = Inr (0, ''partial'', []) \<and>
   report (sample_ext 3) srvC 0 ''partial'' [] = ''\<newline>green:0[         C] STDOUT:    partial\<newline>''"
proof -
  have h: "launch (sample_ext 3) (length (dispatched (running\<lparr>dispatched := [srvA, srvB]\<rparr>)))
       [''pmrun'', ''-h'', Name srvC, ''root'', ''uptime'']
     = Waited (Some OtherError) ''partial'' []" by code_simp
  have r: "report (sample_ext 3) srvC 0 ''partial'' [] = ''\<newline>green:0[         C] STDOUT:    partial\<newline>''"
    by code_simp
  from wait_failure_without_status_reported_as_exit_0[OF h] h r show ?thesis by blast
qed

end
